theory Spec2Isabelle
  imports Main
begin

section \<open>Go strings, runes and UTF-8\<close>

text \<open>
  A Go \<open>string\<close> is a sequence of bytes, and \<open>len\<close> counts bytes: it is modelled by
  Isabelle's \<open>string\<close>, a list of 8-bit characters. The loop \<open>for _, r := range str\<close>
  decodes the bytes as UTF-8, one rune per iteration; a byte that starts no valid encoding
  gives the rune U+FFFD and is one byte wide. The conversion \<open>string(r)\<close> is the UTF-8
  encoding of the rune. Runes are natural numbers here: the library converts only runes it
  got from \<open>range\<close> and the codes 65 to 90.
\<close>

type_synonym rune = nat

definition RuneError :: rune where
  "RuneError = 0xFFFD"

definition cont :: "nat \<Rightarrow> bool" where
  "cont b \<longleftrightarrow> 0x80 \<le> b \<and> b \<le> 0xBF"

text \<open>The second byte of a three- or four-byte encoding has a range that depends on the first.\<close>

definition acceptLo :: "nat \<Rightarrow> nat" where
  "acceptLo s0 = (if s0 = 0xE0 then 0xA0 else if s0 = 0xF0 then 0x90 else 0x80)"

definition acceptHi :: "nat \<Rightarrow> nat" where
  "acceptHi s0 = (if s0 = 0xED then 0x9F else if s0 = 0xF4 then 0x8F else 0xBF)"

definition DecodeRune :: "nat list \<Rightarrow> rune \<times> nat" where
  "DecodeRune bytes =
     (case bytes of
        [] \<Rightarrow> (RuneError, 0)
      | s0 # rest \<Rightarrow>
          if s0 < 0x80 then (s0, 1)
          else if 0xC2 \<le> s0 \<and> s0 \<le> 0xDF then
            (case rest of
               s1 # _ \<Rightarrow>
                 if cont s1 then ((s0 mod 32) * 64 + s1 mod 64, 2) else (RuneError, 1)
             | _ \<Rightarrow> (RuneError, 1))
          else if 0xE0 \<le> s0 \<and> s0 \<le> 0xEF then
            (case rest of
               s1 # s2 # _ \<Rightarrow>
                 if acceptLo s0 \<le> s1 \<and> s1 \<le> acceptHi s0 \<and> cont s2
                 then ((s0 mod 16) * 4096 + (s1 mod 64) * 64 + s2 mod 64, 3)
                 else (RuneError, 1)
             | _ \<Rightarrow> (RuneError, 1))
          else if 0xF0 \<le> s0 \<and> s0 \<le> 0xF4 then
            (case rest of
               s1 # s2 # s3 # _ \<Rightarrow>
                 if acceptLo s0 \<le> s1 \<and> s1 \<le> acceptHi s0 \<and> cont s2 \<and> cont s3
                 then ((s0 mod 8) * 262144 + (s1 mod 64) * 4096 + (s2 mod 64) * 64
                       + s3 mod 64, 4)
                 else (RuneError, 1)
             | _ \<Rightarrow> (RuneError, 1))
          else (RuneError, 1))"

fun decodeAll :: "nat list \<Rightarrow> rune list" where
  "decodeAll [] = []"
| "decodeAll (b # bs) =
     fst (DecodeRune (b # bs)) # decodeAll (drop (snd (DecodeRune (b # bs)) - 1) bs)"

definition EncodeRune :: "rune \<Rightarrow> nat list" where
  "EncodeRune r =
     (if r \<le> 0x7F then [r]
      else if r \<le> 0x7FF then [0xC0 + r div 64, 0x80 + r mod 64]
      else if r > 0x10FFFF \<or> (0xD800 \<le> r \<and> r \<le> 0xDFFF) then [0xEF, 0xBF, 0xBD]
      else if r \<le> 0xFFFF then
        [0xE0 + r div 4096, 0x80 + (r div 64) mod 64, 0x80 + r mod 64]
      else
        [0xF0 + r div 262144, 0x80 + (r div 4096) mod 64, 0x80 + (r div 64) mod 64,
         0x80 + r mod 64])"

text \<open>The runes that \<open>range str\<close> yields, in order, and \<open>string(r)\<close>.\<close>

definition runes_of :: "string \<Rightarrow> rune list" where
  "runes_of str = decodeAll (map of_char str)"

definition string_of_rune :: "rune \<Rightarrow> string" where
  "string_of_rune r = map char_of (EncodeRune r)"

section \<open>Errors, panics and the source of randomness\<close>

text \<open>
  The four error values of the package, and an error that the random source returned.
  A call either returns its values or panics; the panics are told apart by the place
  that raises them.
\<close>

datatype err =
    errDuplicateAlphabets
  | errInvalidString
  | errDecryptLengthNotEqual
  | errEncryptLengthNotEqual
  | errSource string

datatype panic =
    SecretIndexOutOfRange
  | AlphabetsIndexOutOfRange
  | IntegerDivideByZero
  | RandIntArgument

datatype 'a outcome = Panics panic | Returns 'a

text \<open>
  \<open>rand.Int\<close> belongs to Go's standard library, not to this package, and is taken by
  its contract: it panics if \<open>max \<le> 0\<close>, returns the error of the reader if reading
  fails, and otherwise returns a number in \<open>[0, max)\<close>. A reader is modelled by the
  outcomes of the successive calls of \<open>rand.Int\<close> on it (\<open>script\<close>: a draw fails with an
  error, or gives a number) and by how many calls it has served (\<open>pos\<close>). How the library
  turns the bytes of the reader into a number is not part of the model; that the number
  lies in \<open>[0, max)\<close> is a hypothesis where a statement needs it.
\<close>

datatype draw = Failed string | Drawn int

record reader =
  script :: "nat \<Rightarrow> draw"
  pos :: nat

definition rand_Int :: "reader \<Rightarrow> int \<Rightarrow> ((err + int) \<times> reader) outcome" where
  "rand_Int rd mx =
     (if mx \<le> 0 then Panics RandIntArgument
      else (case script rd (pos rd) of
              Failed e \<Rightarrow> Returns (Inl (errSource e), rd\<lparr>pos := Suc (pos rd)\<rparr>)
            | Drawn n \<Rightarrow> Returns (Inr n, rd\<lparr>pos := Suc (pos rd)\<rparr>)))"

section \<open>The cipher context\<close>

text \<open>
  \<open>Length\<close> is an \<open>int64\<close> in the source. Every number the library computes is an index
  of \<open>Alphabets\<close>, the sum or difference of two of them, or such a negative difference
  plus \<open>Length\<close>; none of these leaves the range of \<open>int64\<close>, so no operation wraps
  and the integers are unbounded here.
\<close>

record Vigenere =
  Alphabets :: "string list"
  Length :: int
  RandomSource :: reader

definition GenerateDefaultAlphabets :: "string list" where
  "GenerateDefaultAlphabets = map (\<lambda>i. string_of_rune i) [65 ..< 91]"

text \<open>The duplicate check of \<open>NewVigenere\<close>: the map \<open>set\<close> holds the symbols seen so far.\<close>

fun scanAlphabets :: "(string \<Rightarrow> bool) \<Rightarrow> string list \<Rightarrow> err option" where
  "scanAlphabets seen [] = None"
| "scanAlphabets seen (alphabet # rest) =
     (if seen alphabet then Some errDuplicateAlphabets
      else scanAlphabets (seen(alphabet := True)) rest)"

text \<open>\<open>rand_Reader\<close> stands for the global reader \<open>rand.Reader\<close> of \<open>crypto/rand\<close>.\<close>

definition NewVigenere :: "reader \<Rightarrow> string list \<Rightarrow> Vigenere option \<times> err option" where
  "NewVigenere rand_Reader alphabets0 =
     (let alphabets = (if length alphabets0 = 0 then GenerateDefaultAlphabets else alphabets0)
      in case scanAlphabets (\<lambda>_. False) alphabets of
           Some e \<Rightarrow> (None, Some e)
         | None \<Rightarrow>
             (Some \<lparr>Alphabets = alphabets, Length = int (length alphabets),
                    RandomSource = rand_Reader\<rparr>, None))"

section \<open>Conversions\<close>

text \<open>
  \<open>ConvertToNumeric\<close> ranges over the runes of the string and, for each rune, over the
  whole of \<open>Alphabets\<close>: it appends the index of every symbol equal to the string of the
  rune, so a rune that is no symbol adds nothing and a repeated symbol adds each of its
  indices. \<open>ConvertToString\<close> indexes \<open>Alphabets\<close> with every number in turn, which
  panics for a number outside the slice, and joins the symbols.
\<close>

fun matchAlphabets :: "string \<Rightarrow> nat \<Rightarrow> string list \<Rightarrow> int list \<Rightarrow> int list" where
  "matchAlphabets s i [] numeric = numeric"
| "matchAlphabets s i (char # rest) numeric =
     matchAlphabets s (Suc i) rest (if char = s then numeric @ [int i] else numeric)"

fun numericLoop :: "string list \<Rightarrow> rune list \<Rightarrow> int list \<Rightarrow> int list" where
  "numericLoop alphabets [] numeric = numeric"
| "numericLoop alphabets (r # rs) numeric =
     numericLoop alphabets rs (matchAlphabets (string_of_rune r) 0 alphabets numeric)"

definition ConvertToNumeric :: "Vigenere \<Rightarrow> string \<Rightarrow> int list" where
  "ConvertToNumeric v str = numericLoop (Alphabets v) (runes_of str) []"

fun stringLoop :: "string list \<Rightarrow> int list \<Rightarrow> string list \<Rightarrow> string outcome" where
  "stringLoop alphabets [] str = Returns (concat str)"
| "stringLoop alphabets (num # rest) str =
     (if num < 0 \<or> int (length alphabets) \<le> num then Panics AlphabetsIndexOutOfRange
      else stringLoop alphabets rest (str @ [alphabets ! nat num]))"

definition ConvertToString :: "Vigenere \<Rightarrow> int list \<Rightarrow> string outcome" where
  "ConvertToString v numbers = stringLoop (Alphabets v) numbers []"

section \<open>Encryption and decryption\<close>

text \<open>
  Both operations check the byte lengths first, convert the two strings, and run over
  the indices of the text; \<open>numericSecret[i]\<close> panics when the secret gave fewer indices
  than the text. Go's \<open>%\<close> truncates towards zero and panics on a zero divisor, which the
  loop of \<open>Encrypt\<close> tests before it calls \<open>go_rem\<close>.
\<close>

definition go_rem :: "int \<Rightarrow> int \<Rightarrow> int" where
  "go_rem a b = sgn a * (\<bar>a\<bar> mod \<bar>b\<bar>)"

fun decryptLoop :: "Vigenere \<Rightarrow> int list \<Rightarrow> nat \<Rightarrow> int list \<Rightarrow> int list \<Rightarrow> int list outcome" where
  "decryptLoop v numericSecret i [] plaintext = Returns plaintext"
| "decryptLoop v numericSecret i (char # rest) plaintext =
     (if length numericSecret \<le> i then Panics SecretIndexOutOfRange
      else let equivalent = char - numericSecret ! i;
               equivalent = (if equivalent < 0 then equivalent + Length v else equivalent)
           in decryptLoop v numericSecret (Suc i) rest (plaintext @ [equivalent]))"

definition Decrypt :: "Vigenere \<Rightarrow> string \<Rightarrow> string \<Rightarrow> (string \<times> err option) outcome" where
  "Decrypt v ciphertext secret =
     (if length secret < length ciphertext then Returns ('''', Some errDecryptLengthNotEqual)
      else let numericCiphertext = ConvertToNumeric v ciphertext;
               numericSecret = ConvertToNumeric v secret
           in case decryptLoop v numericSecret 0 numericCiphertext [] of
                Panics p \<Rightarrow> Panics p
              | Returns plaintext \<Rightarrow>
                  (case ConvertToString v plaintext of
                     Panics p \<Rightarrow> Panics p
                   | Returns s \<Rightarrow> Returns (s, None)))"

fun encryptLoop :: "Vigenere \<Rightarrow> int list \<Rightarrow> nat \<Rightarrow> int list \<Rightarrow> int list \<Rightarrow> int list outcome" where
  "encryptLoop v numericSecret i [] ciphertext = Returns ciphertext"
| "encryptLoop v numericSecret i (char # rest) ciphertext =
     (if length numericSecret \<le> i then Panics SecretIndexOutOfRange
      else if Length v = 0 then Panics IntegerDivideByZero
      else let equivalent = go_rem (numericSecret ! i + char) (Length v)
           in encryptLoop v numericSecret (Suc i) rest (ciphertext @ [equivalent]))"

definition Encrypt :: "Vigenere \<Rightarrow> string \<Rightarrow> string \<Rightarrow> (string \<times> err option) outcome" where
  "Encrypt v plaintext secret =
     (if length secret < length plaintext then Returns ('''', Some errEncryptLengthNotEqual)
      else let numericPlaintext = ConvertToNumeric v plaintext;
               numericSecret = ConvertToNumeric v secret
           in case encryptLoop v numericSecret 0 numericPlaintext [] of
                Panics p \<Rightarrow> Panics p
              | Returns ciphertext \<Rightarrow>
                  (case ConvertToString v ciphertext of
                     Panics p \<Rightarrow> Panics p
                   | Returns s \<Rightarrow> Returns (s, None)))"

section \<open>Key generation\<close>

text \<open>
  The reader is a stateful object: a call that reads from it returns the context with
  the reader as the call left it.
\<close>

definition GenerateRandomNumber :: "Vigenere \<Rightarrow> ((int \<times> err option) \<times> Vigenere) outcome" where
  "GenerateRandomNumber v =
     (case rand_Int (RandomSource v) (Length v) of
        Panics p \<Rightarrow> Panics p
      | Returns (Inl e, rd) \<Rightarrow> Returns ((0, Some e), v\<lparr>RandomSource := rd\<rparr>)
      | Returns (Inr number, rd) \<Rightarrow> Returns ((number, None), v\<lparr>RandomSource := rd\<rparr>))"

fun secretLoop :: "Vigenere \<Rightarrow> rune list \<Rightarrow> int list \<Rightarrow> ((string \<times> err option) \<times> Vigenere) outcome" where
  "secretLoop v [] secret =
     (case ConvertToString v secret of
        Panics p \<Rightarrow> Panics p
      | Returns s \<Rightarrow> Returns ((s, None), v))"
| "secretLoop v (r # rs) secret =
     (case GenerateRandomNumber v of
        Panics p \<Rightarrow> Panics p
      | Returns ((number, e), v') \<Rightarrow>
          (case e of
             Some e' \<Rightarrow> Returns (('''', Some e'), v')
           | None \<Rightarrow> secretLoop v' rs (secret @ [number])))"

definition GenerateSecretKey :: "Vigenere \<Rightarrow> string \<Rightarrow> ((string \<times> err option) \<times> Vigenere) outcome" where
  "GenerateSecretKey v plaintext = secretLoop v (runes_of plaintext) []"

section \<open>Validation\<close>

text \<open>
  \<open>ValidateString\<close> first builds the map of the symbols, then returns at the first rune
  of the string whose string is not in the map.
\<close>

fun buildSet :: "(string \<Rightarrow> bool) \<Rightarrow> string list \<Rightarrow> (string \<Rightarrow> bool)" where
  "buildSet seen [] = seen"
| "buildSet seen (alphabet # rest) = buildSet (seen(alphabet := True)) rest"

fun validateLoop :: "(string \<Rightarrow> bool) \<Rightarrow> rune list \<Rightarrow> bool \<times> err option" where
  "validateLoop seen [] = (True, None)"
| "validateLoop seen (r # rs) =
     (if \<not> seen (string_of_rune r) then (False, Some errInvalidString)
      else validateLoop seen rs)"

definition ValidateString :: "Vigenere \<Rightarrow> string \<Rightarrow> bool \<times> err option" where
  "ValidateString v str = validateLoop (buildSet (\<lambda>_. False) (Alphabets v)) (runes_of str)"

section \<open>Auxiliary notions for the statements\<close>

text \<open>The position of the first occurrence of an element in a list.\<close>

fun indexOf :: "'a list \<Rightarrow> 'a \<Rightarrow> nat" where
  "indexOf [] a = 0"
| "indexOf (x # xs) a = (if x = a then 0 else Suc (indexOf xs a))"

text \<open>
  A symbol that the loop of \<open>ConvertToNumeric\<close> can match: ranging over it yields one
  rune, and the string of that rune is the symbol. The symbols A and U+00E9 are such
  symbols; BC and the lone byte 0xFF are not.
\<close>

definition singleRune :: "string \<Rightarrow> bool" where
  "singleRune a = (case runes_of a of [r] \<Rightarrow> string_of_rune r = a | _ \<Rightarrow> False)"

text \<open>The default context, with the reader \<open>rd\<close>.\<close>

definition defaultVigenere :: "reader \<Rightarrow> Vigenere" where
  "defaultVigenere rd =
     \<lparr>Alphabets = GenerateDefaultAlphabets, Length = 26, RandomSource = rd\<rparr>"


definition countReader :: reader where
  "countReader = \<lparr>script = (\<lambda>i. Drawn (int i)), pos = 0\<rparr>"


text \<open>A context with a symbol of two characters, as \<open>NewVigenere\<close> builds it.\<close>

definition threeSymbols :: "reader \<Rightarrow> Vigenere" where
  "threeSymbols rd = \<lparr>Alphabets = [''A'', ''BC'', ''D''], Length = 3, RandomSource = rd\<rparr>"

text \<open>A context whose second symbol is the two-byte encoding of U+00E9.\<close>

definition twoWidths :: "reader \<Rightarrow> Vigenere" where
  "twoWidths rd = \<lparr>Alphabets = [''A'', [CHR 0xC3, CHR 0xA9]], Length = 2, RandomSource = rd\<rparr>"

text \<open>
  A context whose symbols are the Greek letters alpha, beta and gamma, two bytes each in
  UTF-8.
\<close>

definition alpha :: string where "alpha = [CHR 0xCE, CHR 0xB1]"
definition beta :: string where "beta = [CHR 0xCE, CHR 0xB2]"
definition gamma :: string where "gamma = [CHR 0xCE, CHR 0xB3]"

definition greek :: "reader \<Rightarrow> Vigenere" where
  "greek rd = \<lparr>Alphabets = [alpha, beta, gamma], Length = 3, RandomSource = rd\<rparr>"

section \<open>Decoding a symbol of one rune\<close>

lemma DecodeRune_width:
  "bs \<noteq> [] \<Longrightarrow> 1 \<le> snd (DecodeRune bs) \<and> snd (DecodeRune bs) \<le> length bs"
  by (auto simp add: DecodeRune_def split: list.split)

lemma decodeAll_Nil_iff: "decodeAll bs = [] \<longleftrightarrow> bs = []"
  by (cases bs) simp_all

lemma EncodeRune_RuneError: "EncodeRune RuneError = [0xEF, 0xBF, 0xBD]"
  by (simp add: EncodeRune_def RuneError_def)

lemma stable1:
  assumes "snd (DecodeRune [a]) = 1" and "length (EncodeRune (fst (DecodeRune [a]))) = 1"
  shows "DecodeRune (a # rest) = DecodeRune [a]"
  using assms by (simp add: DecodeRune_def EncodeRune_RuneError split: if_splits)

lemma stable2:
  assumes "snd (DecodeRune [a, b]) = 2"
  shows "DecodeRune (a # b # rest) = DecodeRune [a, b]"
  using assms by (simp add: DecodeRune_def split: if_splits)

lemma stable3:
  assumes "snd (DecodeRune [a, b, c]) = 3"
  shows "DecodeRune (a # b # c # rest) = DecodeRune [a, b, c]"
  using assms by (simp add: DecodeRune_def split: if_splits)

lemma stable4:
  assumes "snd (DecodeRune [a, b, c, d]) = 4"
  shows "DecodeRune (a # b # c # d # rest) = DecodeRune [a, b, c, d]"
  using assms by (simp add: DecodeRune_def split: if_splits)

lemma width_le4: "snd (DecodeRune bs) \<le> 4"
  by (simp add: DecodeRune_def split: list.split)

lemma DecodeRune_stable:
  assumes w: "snd (DecodeRune bs) = length bs"
    and e: "length (EncodeRune (fst (DecodeRune bs))) = length bs"
  shows "DecodeRune (bs @ rest) = DecodeRune bs"
proof -
  have "length bs \<le> 4" using width_le4 [of bs] w by simp
  moreover have "bs \<noteq> []" using e by (auto simp add: DecodeRune_def EncodeRune_RuneError)
  ultimately consider a where "bs = [a]" | a b where "bs = [a, b]"
    | a b c where "bs = [a, b, c]" | a b c d where "bs = [a, b, c, d]"
    by (cases bs; cases "tl bs"; cases "tl (tl bs)"; cases "tl (tl (tl bs))";
        cases "tl (tl (tl (tl bs)))") auto
  then show ?thesis
  proof cases
    case 1
    with w e show ?thesis using stable1 [of a rest] by simp
  next
    case 2
    with w show ?thesis using stable2 [of a b rest] by simp
  next
    case 3
    with w show ?thesis using stable3 [of a b c rest] by simp
  next
    case 4
    with w show ?thesis using stable4 [of a b c d rest] by simp
  qed
qed

lemma decodeAll_single:
  assumes one: "decodeAll bs = [r]" and enc: "length (EncodeRune r) = length bs"
  shows "decodeAll (bs @ rest) = r # decodeAll rest"
proof -
  from one obtain b bs' where bs: "bs = b # bs'" by (cases bs) auto
  let ?D = "DecodeRune (b # bs')"
  from one have r: "fst ?D = r" and rest: "decodeAll (drop (snd ?D - 1) bs') = []"
    by (simp_all add: bs)
  from rest have "length bs' \<le> snd ?D - 1" by (simp add: decodeAll_Nil_iff)
  moreover have "1 \<le> snd ?D \<and> snd ?D \<le> length (b # bs')"
    by (rule DecodeRune_width) simp
  ultimately have w: "snd ?D = length (b # bs')" by (simp; linarith)
  have st: "DecodeRune ((b # bs') @ rest) = ?D"
    using w enc by (intro DecodeRune_stable) (simp_all add: r bs)
  have "decodeAll ((b # bs') @ rest)
      = fst ?D # decodeAll (drop (snd ?D - 1) (bs' @ rest))"
    using st by simp
  also have "drop (snd ?D - 1) (bs' @ rest) = rest" using w by simp
  finally show ?thesis by (simp add: bs r)
qed

lemma singleRune_decode:
  assumes "singleRune a"
  shows "runes_of (a @ rest) = hd (runes_of a) # runes_of rest"
    and "string_of_rune (hd (runes_of a)) = a"
proof -
  from assms obtain r where r: "runes_of a = [r]" and s: "string_of_rune r = a"
    by (auto simp add: singleRune_def split: list.splits)
  from s have "length (EncodeRune r) = length (map of_char a :: nat list)"
    by (auto simp add: string_of_rune_def)
  with r have "decodeAll (map of_char a @ map of_char rest) = r # decodeAll (map of_char rest)"
    unfolding runes_of_def by (intro decodeAll_single)
  then show "runes_of (a @ rest) = hd (runes_of a) # runes_of rest"
    by (simp add: runes_of_def r [unfolded runes_of_def])
  from r s show "string_of_rune (hd (runes_of a)) = a" by simp
qed

lemma runes_of_concat:
  "list_all singleRune ps \<Longrightarrow> runes_of (concat ps) = map (\<lambda>a. hd (runes_of a)) ps"
proof (induction ps)
  case Nil
  show ?case by (simp add: runes_of_def)
next
  case (Cons a ps)
  then show ?case by (simp add: singleRune_decode(1))
qed

section \<open>The loops in closed form\<close>

lemma nth_indexOf: "a \<in> set xs \<Longrightarrow> xs ! indexOf xs a = a"
  by (induction xs) auto

lemma indexOf_nth: "distinct xs \<Longrightarrow> i < length xs \<Longrightarrow> indexOf xs (xs ! i) = i"
proof (induction xs arbitrary: i)
  case Nil
  then show ?case by simp
next
  case (Cons x xs)
  then show ?case by (cases i) auto
qed

lemma matchAlphabets_acc: "matchAlphabets s i xs acc = acc @ matchAlphabets s i xs []"
proof (induction xs arbitrary: i acc)
  case Nil
  show ?case by simp
next
  case (Cons x xs)
  show ?case
    using Cons.IH [of "Suc i" "acc @ [int i]"] Cons.IH [of "Suc i" "[int i]"]
      Cons.IH [of "Suc i" acc]
    by simp
qed

lemma matchAlphabets_notin: "s \<notin> set xs \<Longrightarrow> matchAlphabets s i xs [] = []"
  by (induction xs arbitrary: i) auto

lemma matchAlphabets_distinct:
  "distinct xs \<Longrightarrow> s \<in> set xs \<Longrightarrow> matchAlphabets s i xs [] = [int (i + indexOf xs s)]"
proof (induction xs arbitrary: i)
  case Nil
  then show ?case by simp
next
  case (Cons x xs)
  show ?case
  proof (cases "x = s")
    case True
    with Cons.prems have "s \<notin> set xs" by simp
    then have "matchAlphabets s (Suc i) xs [] = []" by (rule matchAlphabets_notin)
    with True show ?thesis using matchAlphabets_acc [of s "Suc i" xs "[int i]"] by simp
  next
    case False
    with Cons show ?thesis by simp
  qed
qed

lemma matchAlphabets_range:
  "n \<in> set (matchAlphabets s i xs []) \<Longrightarrow> int i \<le> n \<and> n < int (i + length xs)"
proof (induction xs arbitrary: i)
  case Nil
  then show ?case by simp
next
  case (Cons x xs)
  show ?case
  proof (cases "x = s")
    case True
    with Cons.prems have "n = int i \<or> n \<in> set (matchAlphabets s (Suc i) xs [])"
      using matchAlphabets_acc [of s "Suc i" xs "[int i]"] by auto
    then show ?thesis using Cons.IH [of "Suc i"] by auto
  next
    case False
    with Cons.prems have "n \<in> set (matchAlphabets s (Suc i) xs [])" by simp
    then show ?thesis using Cons.IH [of "Suc i"] by auto
  qed
qed

lemma numericLoop_acc: "numericLoop al rs acc = acc @ numericLoop al rs []"
proof (induction rs arbitrary: acc)
  case Nil
  show ?case by simp
next
  case (Cons r rs)
  show ?case
    using Cons.IH [of "matchAlphabets (string_of_rune r) 0 al acc"]
      Cons.IH [of "matchAlphabets (string_of_rune r) 0 al []"]
      matchAlphabets_acc [of "string_of_rune r" 0 al acc]
    by simp
qed

lemma numericLoop_Cons:
  "numericLoop al (r # rs) [] = matchAlphabets (string_of_rune r) 0 al [] @ numericLoop al rs []"
  using numericLoop_acc [of al rs "matchAlphabets (string_of_rune r) 0 al []"] by simp

lemma numericLoop_range:
  "n \<in> set (numericLoop al rs []) \<Longrightarrow> 0 \<le> n \<and> n < int (length al)"
proof (induction rs)
  case Nil
  then show ?case by simp
next
  case (Cons r rs)
  then show ?case
    using matchAlphabets_range [of n "string_of_rune r" 0 al]
    by (auto simp add: numericLoop_Cons simp del: numericLoop.simps)
qed

lemma numericLoop_valid:
  "distinct al \<Longrightarrow> \<forall>r \<in> set rs. string_of_rune r \<in> set al \<Longrightarrow>
   numericLoop al rs [] = map (\<lambda>r. int (indexOf al (string_of_rune r))) rs"
  by (induction rs) (simp_all add: numericLoop_Cons matchAlphabets_distinct del: numericLoop.simps(2))

lemma stringLoop_ok:
  "\<forall>n \<in> set nums. 0 \<le> n \<and> n < int (length al) \<Longrightarrow>
   stringLoop al nums acc = Returns (concat (acc @ map (\<lambda>n. al ! nat n) nums))"
  by (induction nums arbitrary: acc) simp_all

lemma go_rem_nonneg: "0 \<le> a \<Longrightarrow> 0 < b \<Longrightarrow> go_rem a b = a mod b"
  by (cases "a = 0") (simp_all add: go_rem_def)

lemma encryptLoop_ok:
  "Length v \<noteq> 0 \<Longrightarrow> i + length ps \<le> length ns \<Longrightarrow>
   encryptLoop v ns i ps acc =
     Returns (acc @ map (\<lambda>(p, s). go_rem (s + p) (Length v)) (zip ps (drop i ns)))"
proof (induction ps arbitrary: i acc)
  case Nil
  show ?case by simp
next
  case (Cons p ps)
  from Cons.prems have i: "i < length ns" by simp
  then have d: "drop i ns = ns ! i # drop (Suc i) ns" by (simp add: Cons_nth_drop_Suc)
  from Cons.prems have "Suc i + length ps \<le> length ns" by simp
  from Cons.IH [OF Cons.prems(1) this] i Cons.prems(1) show ?case by (simp add: d)
qed

lemma decryptLoop_ok:
  "i + length cs \<le> length ns \<Longrightarrow>
   decryptLoop v ns i cs acc =
     Returns (acc @ map (\<lambda>(c, s). if c - s < 0 then c - s + Length v else c - s)
                        (zip cs (drop i ns)))"
proof (induction cs arbitrary: i acc)
  case Nil
  show ?case by simp
next
  case (Cons c cs)
  from Cons.prems have i: "i < length ns" by simp
  then have d: "drop i ns = ns ! i # drop (Suc i) ns" by (simp add: Cons_nth_drop_Suc)
  from Cons.prems have "Suc i + length cs \<le> length ns" by simp
  from Cons.IH [OF this] i show ?case by (simp add: d Let_def)
qed

section \<open>Construction\<close>

lemma GenerateDefaultAlphabets_eq:
  "GenerateDefaultAlphabets =
     map (\<lambda>c. [c]) ''ABCDEFGHIJKLMNOPQRSTUVWXYZ''"
  by code_simp

lemma scanAlphabets_eq:
  "scanAlphabets seen xs =
     (if (\<exists>x \<in> set xs. seen x) \<or> \<not> distinct xs then Some errDuplicateAlphabets else None)"
  by (induction xs arbitrary: seen) auto

lemma NewVigenere_eq:
  "NewVigenere rd alphabets =
     (if alphabets = [] then (Some (defaultVigenere rd), None)
      else if distinct alphabets then
        (Some \<lparr>Alphabets = alphabets, Length = int (length alphabets), RandomSource = rd\<rparr>, None)
      else (None, Some errDuplicateAlphabets))"
  by (simp add: NewVigenere_def scanAlphabets_eq GenerateDefaultAlphabets_eq defaultVigenere_def)

text \<open>
  C8. \<open>NewVigenere\<close> with a nil or empty slice (both have length 0) returns the context
  whose alphabet is the 26 letters A to Z in order. With a non-empty slice it fails with
  \<open>errDuplicateAlphabets\<close> exactly when a symbol repeats, and otherwise returns the
  context holding the slice as it was given, with its length. The scan stops at the first
  symbol it has seen before: whatever follows that symbol, the answer is the error. The
  slice A, A, B is rejected and the slice A, B, C is accepted.
\<close>

theorem NewVigenere_alphabets:
  "NewVigenere rd alphabets =
     (if alphabets = [] then
        (Some \<lparr>Alphabets =
           map (\<lambda>c. [c]) ''ABCDEFGHIJKLMNOPQRSTUVWXYZ'', Length = 26, RandomSource = rd\<rparr>, None)
      else if distinct alphabets then
        (Some \<lparr>Alphabets = alphabets, Length = int (length alphabets), RandomSource = rd\<rparr>, None)
      else (None, Some errDuplicateAlphabets))
   \<and> (a \<in> set pre \<longrightarrow>
        NewVigenere rd (pre @ a # rest) = (None, Some errDuplicateAlphabets))
   \<and> NewVigenere rd [''A'', ''A'', ''B''] = (None, Some errDuplicateAlphabets)
   \<and> NewVigenere rd [''A'', ''B'', ''C''] =
        (Some \<lparr>Alphabets = [''A'', ''B'', ''C''], Length = 3, RandomSource = rd\<rparr>, None)"
  by (simp add: NewVigenere_eq defaultVigenere_def GenerateDefaultAlphabets_eq)

theorem NewVigenere_alphabets_witness:
  "''A'' \<in> set [''A''] \<and>
   NewVigenere countReader ([''A''] @ ''A'' # [''B'']) = (None, Some errDuplicateAlphabets)"
  using NewVigenere_alphabets [of countReader "[]" "''A''" "[''A'']" "[''B'']"] by simp

section \<open>Behaviour on fixed inputs and on the empty string\<close>

text \<open>
  C2. With the default alphabet, \<open>Encrypt\<close> of HELLO under PLUTO returns WPFEC and no
  error, and \<open>Decrypt\<close> of WPFEC under PLUTO returns HELLO and no error. With the alphabet
  of the nine symbols A to I, \<open>Encrypt\<close> of HI under EF returns CE and no error. The
  contexts are the ones \<open>NewVigenere\<close> builds, with any reader.
\<close>

theorem scenarios:
  "map_option (\<lambda>v. Encrypt v ''HELLO'' ''PLUTO'') (fst (NewVigenere rd []))
     = Some (Returns (''WPFEC'', None))
   \<and> map_option (\<lambda>v. Decrypt v ''WPFEC'' ''PLUTO'') (fst (NewVigenere rd []))
     = Some (Returns (''HELLO'', None))
   \<and> map_option (\<lambda>v. Encrypt v ''HI'' ''EF'')
        (fst (NewVigenere rd [''A'', ''B'', ''C'', ''D'', ''E'', ''F'', ''G'', ''H'', ''I'']))
     = Some (Returns (''CE'', None))"
  by code_simp

text \<open>
  C10. In every context, \<open>Encrypt\<close> and \<open>Decrypt\<close> of the empty string return the empty
  string and no error, for every secret, the empty one included. \<open>GenerateSecretKey\<close> of
  the empty string returns the empty string and no error, and the context it leaves is the
  one it got: the reader has not been read.
\<close>

theorem empty_string_accepted:
  "Encrypt v '''' s = Returns ('''', None) \<and> Decrypt v '''' s = Returns ('''', None)
   \<and> GenerateSecretKey v '''' = Returns (('''', None), v)"
  by (simp add: Encrypt_def Decrypt_def GenerateSecretKey_def ConvertToNumeric_def runes_of_def
      ConvertToString_def)

section \<open>The length guard\<close>

text \<open>
  C3. \<open>Encrypt\<close> returns the empty string with \<open>errEncryptLengthNotEqual\<close> exactly when
  the secret has fewer bytes than the plaintext (Go's \<open>len\<close>), and it returns no error of
  any kind, with any output, in the other case. The same holds for \<open>Decrypt\<close>, the
  ciphertext and \<open>errDecryptLengthNotEqual\<close>.
\<close>

theorem length_mismatch_iff:
  "(Encrypt v p s = Returns ('''', Some errEncryptLengthNotEqual)) = (length s < length p)
   \<and> (\<exists>out e. Encrypt v p s = Returns (out, Some e)) = (length s < length p)
   \<and> (Decrypt v c s = Returns ('''', Some errDecryptLengthNotEqual)) = (length s < length c)
   \<and> (\<exists>out e. Decrypt v c s = Returns (out, Some e)) = (length s < length c)"
  by (simp add: Encrypt_def Decrypt_def Let_def split: outcome.split)

section \<open>Validation in closed form\<close>

lemma buildSet_eq: "buildSet seen xs s = (seen s \<or> s \<in> set xs)"
  by (induction xs arbitrary: seen) auto

lemma validateLoop_eq:
  "validateLoop seen rs =
     (if list_all (\<lambda>r. seen (string_of_rune r)) rs then (True, None)
      else (False, Some errInvalidString))"
  by (induction rs) auto

lemma ValidateString_eq:
  "ValidateString v str =
     (if list_all (\<lambda>r. string_of_rune r \<in> set (Alphabets v)) (runes_of str) then (True, None)
      else (False, Some errInvalidString))"
  by (simp add: ValidateString_def validateLoop_eq buildSet_eq)



section \<open>The range of the computed indices\<close>

lemma encryptLoop_range:
  "0 < Length v \<Longrightarrow> list_all (\<lambda>n. 0 \<le> n) ns \<Longrightarrow> list_all (\<lambda>n. 0 \<le> n) ps \<Longrightarrow>
   list_all (\<lambda>n. 0 \<le> n \<and> n < Length v) acc \<Longrightarrow>
   encryptLoop v ns i ps acc = Returns out \<Longrightarrow>
   list_all (\<lambda>n. 0 \<le> n \<and> n < Length v) out"
proof (induction ps arbitrary: i acc)
  case Nil
  then show ?case by simp
next
  case (Cons p ps)
  from Cons.prems(5) have i: "i < length ns"
    by (simp split: if_splits)
  with Cons.prems(2) have "0 \<le> ns ! i" by (simp add: list_all_length)
  with Cons.prems(3) have s: "0 \<le> ns ! i + p" by simp
  have e: "go_rem (ns ! i + p) (Length v) = (ns ! i + p) mod Length v"
    using s Cons.prems(1) by (rule go_rem_nonneg)
  have "list_all (\<lambda>n. 0 \<le> n \<and> n < Length v) (acc @ [go_rem (ns ! i + p) (Length v)])"
    using Cons.prems(1,4) by (simp add: e)
  moreover have "encryptLoop v ns (Suc i) ps (acc @ [go_rem (ns ! i + p) (Length v)]) = Returns out"
    using Cons.prems(1,5) i by simp
  moreover have "list_all (\<lambda>n. 0 \<le> n) ps" using Cons.prems(3) by simp
  ultimately show ?case using Cons.IH Cons.prems(1,2) by blast
qed

lemma decryptLoop_range:
  "list_all (\<lambda>n. 0 \<le> n \<and> n < Length v) ns \<Longrightarrow>
   list_all (\<lambda>n. 0 \<le> n \<and> n < Length v) cs \<Longrightarrow>
   list_all (\<lambda>n. 0 \<le> n \<and> n < Length v) acc \<Longrightarrow>
   decryptLoop v ns i cs acc = Returns out \<Longrightarrow>
   list_all (\<lambda>n. 0 \<le> n \<and> n < Length v) out"
proof (induction cs arbitrary: i acc)
  case Nil
  then show ?case by simp
next
  case (Cons c cs)
  from Cons.prems(4) have i: "i < length ns"
    by (simp split: if_splits)
  with Cons.prems(1) have s: "0 \<le> ns ! i \<and> ns ! i < Length v" by (simp add: list_all_length)
  from Cons.prems(2) have c: "0 \<le> c \<and> c < Length v" by simp
  define e where "e = (if c - ns ! i < 0 then c - ns ! i + Length v else c - ns ! i)"
  have "0 \<le> e \<and> e < Length v" using s c by (simp add: e_def)
  then have "list_all (\<lambda>n. 0 \<le> n \<and> n < Length v) (acc @ [e])"
    using Cons.prems(3) by simp
  moreover have "decryptLoop v ns (Suc i) cs (acc @ [e]) = Returns out"
    using Cons.prems(4) i by (simp add: e_def Let_def)
  moreover have "list_all (\<lambda>n. 0 \<le> n \<and> n < Length v) cs" using Cons.prems(2) by simp
  ultimately show ?case using Cons.IH Cons.prems(1) by blast
qed

lemma ConvertToNumeric_range:
  "list_all (\<lambda>n. 0 \<le> n \<and> n < int (length (Alphabets v))) (ConvertToNumeric v str)"
  using numericLoop_range [of _ "Alphabets v" "runes_of str"]
  by (auto simp add: ConvertToNumeric_def list_all_iff)

lemma ConvertToString_in_range:
  "list_all (\<lambda>n. 0 \<le> n \<and> n < int (length (Alphabets v))) nums \<Longrightarrow>
   ConvertToString v nums = Returns (concat (map (\<lambda>n. Alphabets v ! nat n) nums))"
  by (simp add: ConvertToString_def stringLoop_ok list_all_iff)

lemma encryptLoop_panics:
  "encryptLoop v ns i ps acc = Panics q \<Longrightarrow> q = SecretIndexOutOfRange \<or> q = IntegerDivideByZero"
  by (induction ps arbitrary: i acc) (auto split: if_splits)

lemma decryptLoop_panics:
  "decryptLoop v ns i cs acc = Panics q \<Longrightarrow> q = SecretIndexOutOfRange"
  by (induction cs arbitrary: i acc) (auto simp add: Let_def split: if_splits)

text \<open>
  C4. In a context whose \<open>Length\<close> is the length of its alphabet, as \<open>NewVigenere\<close>
  builds it, every index that the loops of \<open>Encrypt\<close> and \<open>Decrypt\<close> hand to
  \<open>ConvertToString\<close> is at least 0 and less than the length of the alphabet, so neither
  call panics with an index outside \<open>Alphabets\<close>. This holds for every alphabet, text
  and secret, so in particular for a duplicate-free alphabet, a text and a secret made of
  its symbols, and a secret at least as long as the text.
\<close>

theorem decode_indices_in_range:
  assumes wf: "Length v = int (length (Alphabets v))"
  shows "(\<forall>out. encryptLoop v (ConvertToNumeric v secret) 0 (ConvertToNumeric v plaintext) []
              = Returns out \<longrightarrow>
            list_all (\<lambda>n. 0 \<le> n \<and> n < int (length (Alphabets v))) out)
     \<and> (\<forall>out. decryptLoop v (ConvertToNumeric v secret) 0 (ConvertToNumeric v ciphertext) []
              = Returns out \<longrightarrow>
            list_all (\<lambda>n. 0 \<le> n \<and> n < int (length (Alphabets v))) out)
     \<and> Encrypt v plaintext secret \<noteq> Panics AlphabetsIndexOutOfRange
     \<and> Decrypt v ciphertext secret \<noteq> Panics AlphabetsIndexOutOfRange"
proof -
  let ?ok = "\<lambda>n. 0 \<le> n \<and> n < int (length (Alphabets v))"
  have rng: "\<And>str. list_all ?ok (ConvertToNumeric v str)" by (rule ConvertToNumeric_range)
  have nonneg: "\<And>str. list_all (\<lambda>n. 0 \<le> n) (ConvertToNumeric v str)"
    using rng by (auto simp add: list_all_iff)
  have enc: "list_all ?ok out"
    if "encryptLoop v (ConvertToNumeric v secret) 0 (ConvertToNumeric v plaintext) [] = Returns out"
    for out
  proof (cases "0 < Length v")
    case True
    from encryptLoop_range [OF True nonneg nonneg _ that] show ?thesis by (simp add: wf)
  next
    case False
    with wf have "Alphabets v = []" by simp
    then have "ConvertToNumeric v plaintext = []"
      using rng [of plaintext] by (cases "ConvertToNumeric v plaintext") auto
    with that show ?thesis by simp
  qed
  have dec: "list_all ?ok out"
    if "decryptLoop v (ConvertToNumeric v secret) 0 (ConvertToNumeric v ciphertext) [] = Returns out"
    for out
    using decryptLoop_range [of v "ConvertToNumeric v secret" "ConvertToNumeric v ciphertext" "[]" 0 out]
      rng that by (simp add: wf)
  have "Encrypt v plaintext secret \<noteq> Panics AlphabetsIndexOutOfRange"
    using enc encryptLoop_panics [of v _ 0 _ "[]" AlphabetsIndexOutOfRange]
    by (auto simp add: Encrypt_def Let_def ConvertToString_in_range split: outcome.split)
  moreover have "Decrypt v ciphertext secret \<noteq> Panics AlphabetsIndexOutOfRange"
    using dec decryptLoop_panics [of v _ 0 _ "[]" AlphabetsIndexOutOfRange]
    by (auto simp add: Decrypt_def Let_def ConvertToString_in_range split: outcome.split)
  ultimately show ?thesis using enc dec by blast
qed

theorem decode_indices_in_range_witness:
  "Length (defaultVigenere countReader) = int (length (Alphabets (defaultVigenere countReader)))
   \<and> encryptLoop (defaultVigenere countReader)
         (ConvertToNumeric (defaultVigenere countReader) ''PLUTO'') 0
         (ConvertToNumeric (defaultVigenere countReader) ''HELLO'') [] = Returns [22, 15, 5, 4, 2]
   \<and> list_all (\<lambda>n. 0 \<le> n \<and> n < int (length (Alphabets (defaultVigenere countReader))))
         [22, 15, 5, 4, 2]
   \<and> Encrypt (defaultVigenere countReader) ''HELLO'' ''PLUTO'' \<noteq> Panics AlphabetsIndexOutOfRange"
proof -
  have wf: "Length (defaultVigenere countReader)
      = int (length (Alphabets (defaultVigenere countReader)))"
    by code_simp
  have run: "encryptLoop (defaultVigenere countReader)
         (ConvertToNumeric (defaultVigenere countReader) ''PLUTO'') 0
         (ConvertToNumeric (defaultVigenere countReader) ''HELLO'') [] = Returns [22, 15, 5, 4, 2]"
    by code_simp
  show ?thesis
    using decode_indices_in_range [OF wf, of "''PLUTO''" "''HELLO''" "''WPFEC''"]
      wf run
    by simp
qed

section \<open>Key generation in closed form\<close>

lemma GenerateRandomNumber_eq:
  "GenerateRandomNumber v =
     (if Length v \<le> 0 then Panics RandIntArgument
      else (case script (RandomSource v) (pos (RandomSource v)) of
              Failed e \<Rightarrow>
                Returns ((0, Some (errSource e)),
                         v\<lparr>RandomSource := (RandomSource v)\<lparr>pos := Suc (pos (RandomSource v))\<rparr>\<rparr>)
            | Drawn n \<Rightarrow>
                Returns ((n, None),
                         v\<lparr>RandomSource := (RandomSource v)\<lparr>pos := Suc (pos (RandomSource v))\<rparr>\<rparr>)))"
  by (simp add: GenerateRandomNumber_def rand_Int_def split: draw.split)


lemma secretLoop_ok:
  "length ks = length rs \<Longrightarrow> rs = [] \<or> 0 < Length v \<Longrightarrow>
   \<forall>i<length rs. script (RandomSource v) (pos (RandomSource v) + i) = Drawn (ks ! i) \<Longrightarrow>
   secretLoop v rs acc =
     (case stringLoop (Alphabets v) (acc @ ks) [] of
        Panics p \<Rightarrow> Panics p
      | Returns s \<Rightarrow>
          Returns ((s, None),
                   v\<lparr>RandomSource := (RandomSource v)\<lparr>pos := pos (RandomSource v) + length rs\<rparr>\<rparr>))"
proof (induction rs arbitrary: v ks acc)
  case Nil
  then show ?case by (simp add: ConvertToString_def split: outcome.split)
next
  case (Cons r rs)
  then obtain n ks' where ks: "ks = n # ks'" by (cases ks) auto
  from Cons.prems(2) have pos: "0 < Length v" by simp
  from Cons.prems(3) have n: "script (RandomSource v) (pos (RandomSource v)) = Drawn n"
    by (auto simp add: ks dest: spec [of _ 0])
  define v' where "v' = v\<lparr>RandomSource := (RandomSource v)\<lparr>pos := Suc (pos (RandomSource v))\<rparr>\<rparr>"
  have step: "secretLoop v (r # rs) acc = secretLoop v' rs (acc @ [n])"
    using pos n by (simp add: GenerateRandomNumber_eq v'_def)
  have 1: "length ks' = length rs" using Cons.prems(1) by (simp add: ks)
  have 2: "rs = [] \<or> 0 < Length v'" using pos by (simp add: v'_def)
  have 3: "\<forall>i<length rs. script (RandomSource v') (pos (RandomSource v') + i) = Drawn (ks' ! i)"
  proof (intro allI impI)
    fix i assume "i < length rs"
    then have "Suc i < length (r # rs)" by simp
    with Cons.prems(3) have "script (RandomSource v) (pos (RandomSource v) + Suc i) = Drawn (ks ! Suc i)"
      by blast
    then show "script (RandomSource v') (pos (RandomSource v') + i) = Drawn (ks' ! i)"
      by (simp add: v'_def ks)
  qed
  have upd: "v'\<lparr>RandomSource := (RandomSource v')\<lparr>pos := pos (RandomSource v') + length rs\<rparr>\<rparr>
      = v\<lparr>RandomSource := (RandomSource v)\<lparr>pos := pos (RandomSource v) + length (r # rs)\<rparr>\<rparr>"
    by (simp add: v'_def)
  have al: "Alphabets v' = Alphabets v" by (simp add: v'_def)
  have app: "(acc @ [n]) @ ks' = acc @ ks" by (simp add: ks)
  show ?case
    using Cons.IH [OF 1 2 3, of "acc @ [n]"] unfolding step upd al app .
qed



section \<open>Encryption and decryption in closed form\<close>

lemma encryptLoop_length:
  "encryptLoop v ns i ps acc = Returns out \<Longrightarrow> length out = length acc + length ps"
  by (induction ps arbitrary: i acc) (auto split: if_splits)

lemma decryptLoop_length:
  "decryptLoop v ns i cs acc = Returns out \<Longrightarrow> length out = length acc + length cs"
  by (induction cs arbitrary: i acc) (auto simp add: Let_def split: if_splits)

lemma cipher_step:
  assumes "0 \<le> p" "p < L" "0 \<le> s" "s < L"
  shows "(if go_rem (s + p) L - s < 0 then go_rem (s + p) L - s + L else go_rem (s + p) L - s) = p"
proof -
  from assms have g: "go_rem (s + p) L = (s + p) mod L" by (intro go_rem_nonneg) simp_all
  show ?thesis
  proof (cases "s + p < L")
    case True
    with assms have "(s + p) mod L = s + p" by simp
    with assms show ?thesis by (simp add: g)
  next
    case False
    have "(s + p - L) mod L = s + p - L"
      using False assms by (intro mod_pos_pos_trivial) simp_all
    then have "(s + p) mod L = s + p - L" by (simp only: minus_mod_self2)
    then show ?thesis using assms by (simp add: g)
  qed
qed

lemma loops_roundtrip:
  "length ps \<le> length ss \<Longrightarrow> list_all (\<lambda>n. 0 \<le> n \<and> n < L) ps \<Longrightarrow>
   list_all (\<lambda>n. 0 \<le> n \<and> n < L) ss \<Longrightarrow>
   map (\<lambda>(c, s). if c - s < 0 then c - s + L else c - s)
       (zip (map (\<lambda>(p, s). go_rem (s + p) L) (zip ps ss)) ss) = ps"
proof (induction ps arbitrary: ss)
  case Nil
  show ?case by simp
next
  case (Cons p ps)
  then obtain s ss' where ss: "ss = s # ss'" by (cases ss) auto
  from Cons.prems have "0 \<le> p" "p < L" "0 \<le> s" "s < L" by (simp_all add: ss)
  then have "(if go_rem (s + p) L - s < 0 then go_rem (s + p) L - s + L else go_rem (s + p) L - s) = p"
    by (rule cipher_step)
  moreover from Cons.prems have "map (\<lambda>(c, s). if c - s < 0 then c - s + L else c - s)
       (zip (map (\<lambda>(p, s). go_rem (s + p) L) (zip ps ss')) ss') = ps"
    by (intro Cons.IH) (simp_all add: ss)
  ultimately show ?case by (simp add: ss)
qed

lemma cipher_range:
  assumes "list_all (\<lambda>n. 0 \<le> n \<and> n < L) ps" and "list_all (\<lambda>n. 0 \<le> n \<and> n < L) ss"
  shows "list_all (\<lambda>n. 0 \<le> n \<and> n < L) (map (\<lambda>(p, s). go_rem (s + p) L) (zip ps ss))"
  unfolding list_all_iff
proof
  fix n assume "n \<in> set (map (\<lambda>(p, s). go_rem (s + p) L) (zip ps ss))"
  then obtain p s where ps: "(p, s) \<in> set (zip ps ss)" and n: "n = go_rem (s + p) L" by auto
  from ps have "p \<in> set ps" and "s \<in> set ss" by (auto elim: in_set_zipE)
  with assms have b: "0 \<le> p" "p < L" "0 \<le> s" "s < L" by (simp_all add: list_all_iff)
  then have "go_rem (s + p) L = (s + p) mod L" by (intro go_rem_nonneg) simp_all
  with b show "0 \<le> n \<and> n < L" by (simp add: n)
qed

lemma ConvertToNumeric_empty_alphabet: "Alphabets v = [] \<Longrightarrow> ConvertToNumeric v str = []"
  using ConvertToNumeric_range [of v str] by (cases "ConvertToNumeric v str") auto

lemma Encrypt_closed:
  assumes wf: "Length v = int (length (Alphabets v))"
    and len: "length plaintext \<le> length secret"
    and fit: "length (ConvertToNumeric v plaintext) \<le> length (ConvertToNumeric v secret)"
  shows "Encrypt v plaintext secret =
    Returns (concat (map (\<lambda>n. Alphabets v ! nat n)
      (map (\<lambda>(p, s). go_rem (s + p) (Length v))
           (zip (ConvertToNumeric v plaintext) (ConvertToNumeric v secret)))), None)"
proof -
  let ?P = "ConvertToNumeric v plaintext" and ?S = "ConvertToNumeric v secret"
  let ?C = "map (\<lambda>(p, s). go_rem (s + p) (Length v)) (zip ?P ?S)"
  have loop: "encryptLoop v ?S 0 ?P [] = Returns ?C"
  proof (cases "Alphabets v = []")
    case True
    then show ?thesis by (simp add: ConvertToNumeric_empty_alphabet)
  next
    case False
    with wf have "Length v \<noteq> 0" by simp
    from encryptLoop_ok [OF this, of 0 ?P ?S "[]"] fit show ?thesis by simp
  qed
  have "list_all (\<lambda>n. 0 \<le> n \<and> n < int (length (Alphabets v))) ?C"
  proof (cases "0 < Length v")
    case True
    have nn: "\<And>str. list_all (\<lambda>n. 0 \<le> n) (ConvertToNumeric v str)"
      using ConvertToNumeric_range [of v] by (auto simp add: list_all_iff)
    from encryptLoop_range [OF True nn nn _ loop] show ?thesis by (simp add: wf)
  next
    case False
    with wf have "Alphabets v = []" by simp
    then show ?thesis by (simp add: ConvertToNumeric_empty_alphabet)
  qed
  then have "ConvertToString v ?C = Returns (concat (map (\<lambda>n. Alphabets v ! nat n) ?C))"
    by (rule ConvertToString_in_range)
  with loop len show ?thesis by (simp add: Encrypt_def Let_def)
qed

lemma Decrypt_closed:
  assumes wf: "Length v = int (length (Alphabets v))"
    and len: "length ciphertext \<le> length secret"
    and fit: "length (ConvertToNumeric v ciphertext) \<le> length (ConvertToNumeric v secret)"
  shows "Decrypt v ciphertext secret =
    Returns (concat (map (\<lambda>n. Alphabets v ! nat n)
      (map (\<lambda>(c, s). if c - s < 0 then c - s + Length v else c - s)
           (zip (ConvertToNumeric v ciphertext) (ConvertToNumeric v secret)))), None)"
proof -
  let ?C = "ConvertToNumeric v ciphertext" and ?S = "ConvertToNumeric v secret"
  let ?P = "map (\<lambda>(c, s). if c - s < 0 then c - s + Length v else c - s) (zip ?C ?S)"
  have loop: "decryptLoop v ?S 0 ?C [] = Returns ?P"
    using decryptLoop_ok [of 0 ?C ?S v "[]"] fit by simp
  have "list_all (\<lambda>n. 0 \<le> n \<and> n < Length v) ?P"
    using decryptLoop_range [of v ?S ?C "[]" 0 ?P] ConvertToNumeric_range [of v] loop
    by (simp add: wf)
  then have "ConvertToString v ?P = Returns (concat (map (\<lambda>n. Alphabets v ! nat n) ?P))"
    unfolding wf by (rule ConvertToString_in_range)
  with loop len show ?thesis by (simp add: Decrypt_def Let_def)
qed

section \<open>Texts spelled with the symbols of the alphabet\<close>

lemma singleRune_nonempty: "singleRune a \<Longrightarrow> a \<noteq> []"
  by (auto simp add: singleRune_def runes_of_def)

lemma symbols_are_singleRune:
  "list_all singleRune al \<Longrightarrow> list_all (\<lambda>x. x \<in> set al) ps \<Longrightarrow> list_all singleRune ps"
  by (auto simp add: list_all_iff)

lemma ConvertToNumeric_symbols:
  assumes d: "distinct (Alphabets v)" and sr: "list_all singleRune (Alphabets v)"
    and ps: "list_all (\<lambda>x. x \<in> set (Alphabets v)) ps"
  shows "ConvertToNumeric v (concat ps) = map (\<lambda>a. int (indexOf (Alphabets v) a)) ps"
proof -
  have s: "list_all singleRune ps" using sr ps by (rule symbols_are_singleRune)
  then have r: "runes_of (concat ps) = map (\<lambda>a. hd (runes_of a)) ps" by (rule runes_of_concat)
  have inv: "\<And>a. a \<in> set ps \<Longrightarrow> string_of_rune (hd (runes_of a)) = a"
    using s by (auto simp add: list_all_iff singleRune_decode(2))
  then have "\<forall>r \<in> set (map (\<lambda>a. hd (runes_of a)) ps). string_of_rune r \<in> set (Alphabets v)"
    using ps by (auto simp add: list_all_iff)
  from numericLoop_valid [OF d this] inv show ?thesis
    by (simp add: ConvertToNumeric_def r cong: map_cong)
qed

lemma ValidateString_symbols:
  assumes sr: "list_all singleRune (Alphabets v)"
    and ps: "list_all (\<lambda>x. x \<in> set (Alphabets v)) ps"
  shows "ValidateString v (concat ps) = (True, None)"
proof -
  have s: "list_all singleRune ps" using sr ps by (rule symbols_are_singleRune)
  then have r: "runes_of (concat ps) = map (\<lambda>a. hd (runes_of a)) ps" by (rule runes_of_concat)
  have "\<And>a. a \<in> set ps \<Longrightarrow> string_of_rune (hd (runes_of a)) = a"
    using s by (auto simp add: list_all_iff singleRune_decode(2))
  with ps show ?thesis by (auto simp add: ValidateString_eq r list_all_iff)
qed

lemma length_concat_uniform:
  "list_all (\<lambda>a. length a = w) ps \<Longrightarrow> length (concat ps) = w * length ps"
  by (induction ps) simp_all

lemma symbols_uniform:
  "list_all (\<lambda>a. length a = w) al \<Longrightarrow> list_all (\<lambda>x. x \<in> set al) ps \<Longrightarrow>
   list_all (\<lambda>a. length a = w) ps"
  by (auto simp add: list_all_iff)

lemma nth_in_alphabet:
  "list_all (\<lambda>n. 0 \<le> n \<and> n < int (length al)) ns \<Longrightarrow>
   list_all (\<lambda>x. x \<in> set al) (map (\<lambda>n. al ! nat n) ns)"
proof (induction ns)
  case Nil
  show ?case by simp
next
  case (Cons n ns)
  from Cons.prems have "0 \<le> n" and "n < int (length al)" by simp_all
  then have "nat n < length al" by linarith
  then have "al ! nat n \<in> set al" by (rule nth_mem)
  with Cons show ?case by simp
qed

lemma indexOf_of_nth:
  assumes "distinct al"
  shows "list_all (\<lambda>n. 0 \<le> n \<and> n < int (length al)) ns \<Longrightarrow>
         map (\<lambda>a. int (indexOf al a)) (map (\<lambda>n. al ! nat n) ns) = ns"
proof (induction ns)
  case Nil
  show ?case by simp
next
  case (Cons n ns)
  from Cons.prems have nn: "0 \<le> n" and "n < int (length al)" by simp_all
  then have "nat n < length al" by linarith
  then have "indexOf al (al ! nat n) = nat n" using assms by (intro indexOf_nth)
  with Cons nn show ?case by simp
qed

lemma nth_of_indexOf:
  "list_all (\<lambda>x. x \<in> set al) ps \<Longrightarrow>
   map (\<lambda>n. al ! nat n) (map (\<lambda>a. int (indexOf al a)) ps) = ps"
  by (induction ps) (simp_all add: nth_indexOf)

lemma stringLoop_length:
  "list_all (\<lambda>a. length a = w) al \<Longrightarrow> stringLoop al nums acc = Returns s \<Longrightarrow>
   length s = length (concat acc) + w * length nums"
proof (induction nums arbitrary: acc)
  case Nil
  then show ?case by simp
next
  case (Cons n nums)
  from Cons.prems(2) have rng: "0 \<le> n \<and> n < int (length al)" by (simp split: if_splits)
  then have "nat n < length al" by linarith
  then have "al ! nat n \<in> set al" by (rule nth_mem)
  with Cons.prems(1) have one: "length (al ! nat n) = w" by (simp add: list_all_iff)
  from Cons.prems(2) rng have "stringLoop al nums (acc @ [al ! nat n]) = Returns s" by simp
  from Cons.IH [OF Cons.prems(1) this] one show ?case by simp
qed

section \<open>Length preservation\<close>

text \<open>
  C6, as the code has it. In a context whose alphabet is duplicate-free and made of
  symbols of one rune each, all \<open>w\<close> bytes long: if the plaintext is a concatenation of
  symbols of the alphabet and \<open>Encrypt\<close> returns an output with no error, the output is
  as long as the plaintext; and if the ciphertext is such a concatenation and \<open>Decrypt\<close>
  returns an output with no error, the output is as long as the ciphertext. For other
  texts and alphabets the lengths can differ: a rune that is not in the alphabet yields
  no index, and an index yields its whole symbol.
\<close>

theorem length_preserved:
  assumes d: "distinct (Alphabets v)" and sr: "list_all singleRune (Alphabets v)"
    and u: "list_all (\<lambda>a. length a = w) (Alphabets v)"
  shows "(list_all (\<lambda>x. x \<in> set (Alphabets v)) ps
            \<and> Encrypt v (concat ps) s = Returns (out, None)
          \<longrightarrow> length out = length (concat ps))
     \<and> (list_all (\<lambda>x. x \<in> set (Alphabets v)) cs
            \<and> Decrypt v (concat cs) s = Returns (out', None)
          \<longrightarrow> length out' = length (concat cs))"
proof (intro conjI impI)
  assume a: "list_all (\<lambda>x. x \<in> set (Alphabets v)) ps
    \<and> Encrypt v (concat ps) s = Returns (out, None)"
  then have n: "length (ConvertToNumeric v (concat ps)) = length ps"
    using ConvertToNumeric_symbols [OF d sr, of ps] by simp
  have l: "length (concat ps) = w * length ps"
    using a symbols_uniform [OF u, of ps] by (intro length_concat_uniform) simp
  from a obtain idx where
    "encryptLoop v (ConvertToNumeric v s) 0 (ConvertToNumeric v (concat ps)) [] = Returns idx"
    and "ConvertToString v idx = Returns out"
    by (auto simp add: Encrypt_def Let_def split: if_splits outcome.splits)
  then show "length out = length (concat ps)"
    using encryptLoop_length [of v _ 0 _ "[]" idx] stringLoop_length [OF u, of idx "[]" out] n l
    by (simp add: ConvertToString_def)
next
  assume a: "list_all (\<lambda>x. x \<in> set (Alphabets v)) cs
    \<and> Decrypt v (concat cs) s = Returns (out', None)"
  then have n: "length (ConvertToNumeric v (concat cs)) = length cs"
    using ConvertToNumeric_symbols [OF d sr, of cs] by simp
  have l: "length (concat cs) = w * length cs"
    using a symbols_uniform [OF u, of cs] by (intro length_concat_uniform) simp
  from a obtain idx where
    "decryptLoop v (ConvertToNumeric v s) 0 (ConvertToNumeric v (concat cs)) [] = Returns idx"
    and "ConvertToString v idx = Returns out'"
    by (auto simp add: Decrypt_def Let_def split: if_splits outcome.splits)
  then show "length out' = length (concat cs)"
    using decryptLoop_length [of v _ 0 _ "[]" idx] stringLoop_length [OF u, of idx "[]" out'] n l
    by (simp add: ConvertToString_def)
qed

theorem length_preserved_witness:
  "distinct (Alphabets (greek countReader))
   \<and> list_all singleRune (Alphabets (greek countReader))
   \<and> list_all (\<lambda>a. length a = 2) (Alphabets (greek countReader))
   \<and> list_all (\<lambda>x. x \<in> set (Alphabets (greek countReader))) [beta, gamma]
   \<and> Encrypt (greek countReader) (concat [beta, gamma]) (concat [gamma, gamma, alpha])
       = Returns (concat [alpha, beta], None)
   \<and> length (concat [alpha, beta]) = length (concat [beta, gamma])
   \<and> list_all (\<lambda>x. x \<in> set (Alphabets (greek countReader))) [alpha, beta]
   \<and> Decrypt (greek countReader) (concat [alpha, beta]) (concat [gamma, gamma, alpha])
       = Returns (concat [beta, gamma], None)
   \<and> length (concat [beta, gamma]) = length (concat [alpha, beta])"
proof -
  have 1: "distinct (Alphabets (greek countReader))" by code_simp
  have 2: "list_all singleRune (Alphabets (greek countReader))" by code_simp
  have 3: "list_all (\<lambda>a. length a = 2) (Alphabets (greek countReader))" by code_simp
  have 4: "list_all (\<lambda>x. x \<in> set (Alphabets (greek countReader))) [beta, gamma]" by code_simp
  have 5: "Encrypt (greek countReader) (concat [beta, gamma]) (concat [gamma, gamma, alpha])
       = Returns (concat [alpha, beta], None)" by code_simp
  have 6: "list_all (\<lambda>x. x \<in> set (Alphabets (greek countReader))) [alpha, beta]" by code_simp
  have 7: "Decrypt (greek countReader) (concat [alpha, beta]) (concat [gamma, gamma, alpha])
       = Returns (concat [beta, gamma], None)" by code_simp
  from length_preserved [OF 1 2 3, of "[beta, gamma]" "concat [gamma, gamma, alpha]"
      "concat [alpha, beta]" "[alpha, beta]" "concat [beta, gamma]"] 1 2 3 4 5 6 7
  show ?thesis by blast
qed

theorem length_preserved_counterexample:
  "Encrypt (defaultVigenere countReader) ''A1'' ''AA'' = Returns (''A'', None)
   \<and> length ''A'' \<noteq> length ''A1''
   \<and> Encrypt (threeSymbols countReader) ''D'' ''D'' = Returns (''BC'', None)
   \<and> length ''BC'' \<noteq> length ''D''"
  by code_simp

section \<open>The round trip\<close>

text \<open>
  C1, as the code has it. In a context whose alphabet is duplicate-free and made of
  symbols of one rune each, all \<open>w\<close> bytes long, and whose \<open>Length\<close> is the length of
  the alphabet, for a plaintext and a secret that are concatenations of symbols of the
  alphabet, the secret at least as long as the plaintext: both texts pass
  \<open>ValidateString\<close>, \<open>Encrypt\<close> returns a ciphertext and no error, and \<open>Decrypt\<close> of that
  ciphertext under the same secret returns the plaintext and no error.
\<close>

theorem round_trip:
  assumes d: "distinct (Alphabets v)" and sr: "list_all singleRune (Alphabets v)"
    and u: "list_all (\<lambda>a. length a = w) (Alphabets v)"
    and wf: "Length v = int (length (Alphabets v))"
    and ps: "list_all (\<lambda>x. x \<in> set (Alphabets v)) ps"
    and ss: "list_all (\<lambda>x. x \<in> set (Alphabets v)) ss"
    and len: "length (concat ps) \<le> length (concat ss)"
  shows "ValidateString v (concat ps) = (True, None)
     \<and> ValidateString v (concat ss) = (True, None)
     \<and> (\<exists>c. Encrypt v (concat ps) (concat ss) = Returns (c, None)
             \<and> Decrypt v c (concat ss) = Returns (concat ps, None))"
proof -
  let ?al = "Alphabets v"
  let ?ok = "\<lambda>n. 0 \<le> n \<and> n < int (length ?al)"
  let ?P = "ConvertToNumeric v (concat ps)" and ?S = "ConvertToNumeric v (concat ss)"
  let ?C = "map (\<lambda>(p, s). go_rem (s + p) (Length v)) (zip ?P ?S)"
  let ?cs = "map (\<lambda>n. ?al ! nat n) ?C"
  have P: "?P = map (\<lambda>a. int (indexOf ?al a)) ps" using d sr ps by (rule ConvertToNumeric_symbols)
  have S: "?S = map (\<lambda>a. int (indexOf ?al a)) ss" using d sr ss by (rule ConvertToNumeric_symbols)
  have lp: "length (concat ps) = w * length ps"
    using symbols_uniform [OF u ps] by (rule length_concat_uniform)
  have ls: "length (concat ss) = w * length ss"
    using symbols_uniform [OF u ss] by (rule length_concat_uniform)
  have count: "length ps \<le> length ss"
  proof (cases ps)
    case Nil
    then show ?thesis by simp
  next
    case (Cons a ps')
    with ps have m: "a \<in> set ?al" by simp
    with sr have "a \<noteq> []" by (auto simp add: list_all_iff singleRune_nonempty)
    moreover from m u have "length a = w" by (simp add: list_all_iff)
    ultimately have "0 < w" by auto
    with len show ?thesis by (simp add: lp ls)
  qed
  have fit: "length ?P \<le> length ?S" using count by (simp add: P S)
  have enc: "Encrypt v (concat ps) (concat ss) = Returns (concat ?cs, None)"
    using wf len fit by (rule Encrypt_closed)
  have Pok: "list_all ?ok ?P" and Sok: "list_all ?ok ?S"
    by (rule ConvertToNumeric_range)+
  have Cok: "list_all ?ok ?C"
    using cipher_range [of "Length v" ?P ?S] Pok Sok by (simp add: wf)
  have lenC: "length ?C = length ps" using count by (simp add: P S)
  have csin: "list_all (\<lambda>x. x \<in> set ?al) ?cs" using Cok by (rule nth_in_alphabet)
  have C: "ConvertToNumeric v (concat ?cs) = ?C"
    using ConvertToNumeric_symbols [OF d sr csin] indexOf_of_nth [OF d Cok] by simp
  have lc: "length (concat ?cs) = w * length ?cs"
    using symbols_uniform [OF u csin] by (rule length_concat_uniform)
  have lcs: "length ?cs = length ps" using lenC by (metis length_map)
  have len': "length (concat ?cs) \<le> length (concat ss)"
    by (simp only: lc lcs lp [symmetric] len)
  have fit': "length (ConvertToNumeric v (concat ?cs)) \<le> length ?S"
    using C lenC count by (simp add: S)
  have undo: "map (\<lambda>(c, s). if c - s < 0 then c - s + Length v else c - s) (zip ?C ?S) = ?P"
    using loops_roundtrip [OF fit, of "Length v"] Pok Sok by (simp add: wf)
  have "Decrypt v (concat ?cs) (concat ss) =
    Returns (concat (map (\<lambda>n. ?al ! nat n)
      (map (\<lambda>(c, s). if c - s < 0 then c - s + Length v else c - s)
           (zip (ConvertToNumeric v (concat ?cs)) ?S))), None)"
    using wf len' fit' by (rule Decrypt_closed)
  also have "\<dots> = Returns (concat (map (\<lambda>n. ?al ! nat n) ?P), None)"
    by (simp only: C undo)
  also have "\<dots> = Returns (concat ps, None)"
    using nth_of_indexOf [OF ps] by (simp only: P)
  finally have "Decrypt v (concat ?cs) (concat ss) = Returns (concat ps, None)" .
  with enc ValidateString_symbols [OF sr ps] ValidateString_symbols [OF sr ss]
  show ?thesis by blast
qed

theorem round_trip_witness:
  "distinct (Alphabets (greek countReader))
   \<and> list_all singleRune (Alphabets (greek countReader))
   \<and> list_all (\<lambda>a. length a = 2) (Alphabets (greek countReader))
   \<and> Length (greek countReader) = int (length (Alphabets (greek countReader)))
   \<and> list_all (\<lambda>x. x \<in> set (Alphabets (greek countReader))) [beta, gamma]
   \<and> list_all (\<lambda>x. x \<in> set (Alphabets (greek countReader))) [gamma, gamma, alpha]
   \<and> length (concat [beta, gamma]) \<le> length (concat [gamma, gamma, alpha])
   \<and> (\<exists>c. Encrypt (greek countReader) (concat [beta, gamma]) (concat [gamma, gamma, alpha])
            = Returns (c, None)
          \<and> Decrypt (greek countReader) c (concat [gamma, gamma, alpha])
            = Returns (concat [beta, gamma], None))
   \<and> (\<exists>c. Encrypt (defaultVigenere countReader) (concat (map (\<lambda>c. [c]) ''HELLO''))
              (concat (map (\<lambda>c. [c]) ''PLUTOS'')) = Returns (c, None)
          \<and> Decrypt (defaultVigenere countReader) c (concat (map (\<lambda>c. [c]) ''PLUTOS''))
            = Returns (concat (map (\<lambda>c. [c]) ''HELLO''), None))"
proof -
  have 1: "distinct (Alphabets (greek countReader))" by code_simp
  have 2: "list_all singleRune (Alphabets (greek countReader))" by code_simp
  have 3: "list_all (\<lambda>a. length a = 2) (Alphabets (greek countReader))" by code_simp
  have 4: "Length (greek countReader) = int (length (Alphabets (greek countReader)))"
    by code_simp
  have 5: "list_all (\<lambda>x. x \<in> set (Alphabets (greek countReader))) [beta, gamma]" by code_simp
  have 6: "list_all (\<lambda>x. x \<in> set (Alphabets (greek countReader))) [gamma, gamma, alpha]"
    by code_simp
  have 7: "length (concat [beta, gamma]) \<le> length (concat [gamma, gamma, alpha])" by code_simp
  have d1: "distinct (Alphabets (defaultVigenere countReader))" by code_simp
  have d2: "list_all singleRune (Alphabets (defaultVigenere countReader))" by code_simp
  have d3: "list_all (\<lambda>a. length a = 1) (Alphabets (defaultVigenere countReader))" by code_simp
  have d4: "Length (defaultVigenere countReader)
      = int (length (Alphabets (defaultVigenere countReader)))" by code_simp
  have d5: "list_all (\<lambda>x. x \<in> set (Alphabets (defaultVigenere countReader)))
      (map (\<lambda>c. [c]) ''HELLO'')" by code_simp
  have d6: "list_all (\<lambda>x. x \<in> set (Alphabets (defaultVigenere countReader)))
      (map (\<lambda>c. [c]) ''PLUTOS'')" by code_simp
  have d7: "length (concat (map (\<lambda>c. [c]) ''HELLO''))
      \<le> length (concat (map (\<lambda>c. [c]) ''PLUTOS''))" by code_simp
  from round_trip [OF 1 2 3 4 5 6 7] round_trip [OF d1 d2 d3 d4 d5 d6 d7] 1 2 3 4 5 6 7
  show ?thesis by blast
qed

theorem round_trip_counterexample:
  "NewVigenere countReader [''A'', ''BC'', ''D''] = (Some (threeSymbols countReader), None)
   \<and> distinct (Alphabets (threeSymbols countReader))
   \<and> ValidateString (threeSymbols countReader) ''D'' = (True, None)
   \<and> length ''D'' \<le> length ''D''
   \<and> Encrypt (threeSymbols countReader) ''D'' ''D'' = Returns (''BC'', None)
   \<and> Decrypt (threeSymbols countReader) ''BC'' ''D'' = Returns ('''', Some errDecryptLengthNotEqual)
   \<and> Decrypt (threeSymbols countReader) ''BC'' ''D'' \<noteq> Returns (''D'', None)
   \<and> NewVigenere countReader [''A'', [CHR 0xC3, CHR 0xA9]] = (Some (twoWidths countReader), None)
   \<and> ValidateString (twoWidths countReader) ''AA'' = (True, None)
   \<and> ValidateString (twoWidths countReader) [CHR 0xC3, CHR 0xA9] = (True, None)
   \<and> length ''AA'' \<le> length [CHR 0xC3, CHR 0xA9]
   \<and> Encrypt (twoWidths countReader) ''AA'' [CHR 0xC3, CHR 0xA9] = Panics SecretIndexOutOfRange"
proof -
  have 1: "NewVigenere countReader [''A'', ''BC'', ''D''] = (Some (threeSymbols countReader), None)"
    by (simp add: NewVigenere_eq threeSymbols_def)
  have 2: "NewVigenere countReader [''A'', [CHR 0xC3, CHR 0xA9]]
      = (Some (twoWidths countReader), None)"
    by (simp add: NewVigenere_eq twoWidths_def)
  have 3: "distinct (Alphabets (threeSymbols countReader))
     \<and> ValidateString (threeSymbols countReader) ''D'' = (True, None)
     \<and> length ''D'' \<le> length ''D''
     \<and> Encrypt (threeSymbols countReader) ''D'' ''D'' = Returns (''BC'', None)
     \<and> Decrypt (threeSymbols countReader) ''BC'' ''D''
         = Returns ('''', Some errDecryptLengthNotEqual)"
    by code_simp
  have 4: "ValidateString (twoWidths countReader) ''AA'' = (True, None)
     \<and> ValidateString (twoWidths countReader) [CHR 0xC3, CHR 0xA9] = (True, None)
     \<and> length ''AA'' \<le> length [CHR 0xC3, CHR 0xA9]
     \<and> Encrypt (twoWidths countReader) ''AA'' [CHR 0xC3, CHR 0xA9]
         = Panics SecretIndexOutOfRange"
    by code_simp
  from 1 2 3 4 show ?thesis by simp
qed

section \<open>The length of a generated key\<close>

text \<open>
  C5, as the code has it. In a context whose \<open>Length\<close> is the length of the alphabet,
  if each of the draws, one per rune of the text, gives a number in \<open>[0, Length)\<close>, then
  \<open>GenerateSecretKey\<close> returns a key and no error after exactly these draws, and the key
  is the concatenation of one symbol of the alphabet per rune of the text. So the key has
  \<open>w\<close> bytes for every rune of the text when the symbols are all \<open>w\<close> bytes long, and
  that is the length of the text when moreover the symbols are of one rune each and the
  text is a concatenation of symbols of the alphabet.
\<close>

theorem secret_key_length:
  assumes wf: "Length v = int (length (Alphabets v))"
    and draws: "\<forall>i<length (runes_of text). \<exists>k.
        script (RandomSource v) (pos (RandomSource v) + i) = Drawn k \<and> 0 \<le> k \<and> k < Length v"
  shows "\<exists>syms. GenerateSecretKey v text =
           Returns ((concat syms, None),
             v\<lparr>RandomSource :=
                 (RandomSource v)\<lparr>pos := pos (RandomSource v) + length (runes_of text)\<rparr>\<rparr>)
         \<and> length syms = length (runes_of text)
         \<and> list_all (\<lambda>x. x \<in> set (Alphabets v)) syms
         \<and> (list_all (\<lambda>a. length a = w) (Alphabets v)
              \<longrightarrow> length (concat syms) = w * length (runes_of text))
         \<and> (list_all (\<lambda>a. length a = w) (Alphabets v) \<and> list_all singleRune (Alphabets v)
              \<and> list_all (\<lambda>x. x \<in> set (Alphabets v)) ts \<and> text = concat ts
              \<longrightarrow> length (concat syms) = length text)"
proof -
  let ?rs = "runes_of text"
  let ?rd = "RandomSource v"
  define ks where
    "ks = map (\<lambda>i. case script ?rd (pos ?rd + i) of Drawn k \<Rightarrow> k | Failed _ \<Rightarrow> 0) [0..<length ?rs]"
  have l: "length ks = length ?rs" by (simp add: ks_def)
  have dr: "\<forall>i<length ?rs. script ?rd (pos ?rd + i) = Drawn (ks ! i)"
    using draws by (auto simp add: ks_def split: draw.split)
  have rng: "list_all (\<lambda>n. 0 \<le> n \<and> n < int (length (Alphabets v))) ks"
    using draws by (auto simp add: ks_def list_all_iff wf [symmetric] split: draw.split)
  have pos: "?rs = [] \<or> 0 < Length v"
  proof (cases ?rs)
    case Nil
    then show ?thesis by simp
  next
    case (Cons r rs)
    then have "0 < length ?rs" by simp
    with draws obtain k where "0 \<le> k \<and> k < Length v" by blast
    then show ?thesis by simp
  qed
  define syms where "syms = map (\<lambda>n. Alphabets v ! nat n) ks"
  have str: "stringLoop (Alphabets v) ks [] = Returns (concat syms)"
    using stringLoop_ok [of ks "Alphabets v" "[]"] rng by (simp add: list_all_iff syms_def)
  have gen: "GenerateSecretKey v text =
      Returns ((concat syms, None), v\<lparr>RandomSource := ?rd\<lparr>pos := pos ?rd + length ?rs\<rparr>\<rparr>)"
    using secretLoop_ok [OF l pos dr, of "[]"] by (simp add: GenerateSecretKey_def str)
  have n: "length syms = length ?rs" using l by (simp add: syms_def)
  have mem: "list_all (\<lambda>x. x \<in> set (Alphabets v)) syms"
    unfolding syms_def using rng by (rule nth_in_alphabet)
  have klen: "length (concat syms) = w * length ?rs"
    if u: "list_all (\<lambda>a. length a = w) (Alphabets v)"
    using length_concat_uniform [OF symbols_uniform [OF u mem]] n by simp
  have spelled: "length (concat syms) = length text"
    if "list_all (\<lambda>a. length a = w) (Alphabets v) \<and> list_all singleRune (Alphabets v)
        \<and> list_all (\<lambda>x. x \<in> set (Alphabets v)) ts \<and> text = concat ts"
  proof -
    from that have ts: "list_all (\<lambda>x. x \<in> set (Alphabets v)) ts" and t: "text = concat ts"
      and sr: "list_all singleRune (Alphabets v)"
      and u: "list_all (\<lambda>a. length a = w) (Alphabets v)" by simp_all
    have "runes_of text = map (\<lambda>a. hd (runes_of a)) ts"
      unfolding t using symbols_are_singleRune [OF sr ts] by (rule runes_of_concat)
    then have "length ?rs = length ts" by simp
    moreover have "length text = w * length ts"
      unfolding t using symbols_uniform [OF u ts] by (rule length_concat_uniform)
    ultimately show ?thesis using klen [OF u] by simp
  qed
  from gen n mem klen spelled show ?thesis by blast
qed

theorem secret_key_length_witness:
  "Length (greek countReader) = int (length (Alphabets (greek countReader)))
   \<and> list_all (\<lambda>a. length a = 2) (Alphabets (greek countReader))
   \<and> list_all singleRune (Alphabets (greek countReader))
   \<and> list_all (\<lambda>x. x \<in> set (Alphabets (greek countReader))) [beta, gamma]
   \<and> (\<exists>syms. GenerateSecretKey (greek countReader) (concat [beta, gamma]) =
          Returns ((concat syms, None), greek (countReader\<lparr>pos := 2\<rparr>))
        \<and> length syms = length (runes_of (concat [beta, gamma]))
        \<and> length (concat syms) = 2 * length (runes_of (concat [beta, gamma]))
        \<and> length (concat syms) = length (concat [beta, gamma]))"
proof -
  have 1: "list_all (\<lambda>a. length a = 2) (Alphabets (greek countReader))" by code_simp
  have 2: "Length (greek countReader) = int (length (Alphabets (greek countReader)))"
    by code_simp
  have n: "length (runes_of (concat [beta, gamma])) = 2" by code_simp
  have 3: "\<forall>i<length (runes_of (concat [beta, gamma])). \<exists>k.
        script (RandomSource (greek countReader)) (pos (RandomSource (greek countReader)) + i)
          = Drawn k
        \<and> 0 \<le> k \<and> k < Length (greek countReader)"
    unfolding n by (simp add: greek_def countReader_def)
  have 4: "list_all singleRune (Alphabets (greek countReader))" by code_simp
  have 5: "list_all (\<lambda>x. x \<in> set (Alphabets (greek countReader))) [beta, gamma]" by code_simp
  have u: "(greek countReader)\<lparr>RandomSource :=
      (RandomSource (greek countReader))\<lparr>pos := pos (RandomSource (greek countReader))
        + length (runes_of (concat [beta, gamma]))\<rparr>\<rparr> = greek (countReader\<lparr>pos := 2\<rparr>)"
    unfolding n by (simp add: greek_def countReader_def)
  from secret_key_length [OF 2 3, of 2 "[beta, gamma]"] 1 2 4 5 show ?thesis
    unfolding u by blast
qed

theorem secret_key_length_counterexample:
  "GenerateSecretKey (threeSymbols (countReader\<lparr>pos := 1\<rparr>)) ''X'' =
     Returns ((''BC'', None), threeSymbols (countReader\<lparr>pos := 2\<rparr>))
   \<and> length ''BC'' \<noteq> length ''X''
   \<and> GenerateSecretKey (defaultVigenere countReader) [CHR 0xC3, CHR 0xA9] =
     Returns ((''A'', None), defaultVigenere (countReader\<lparr>pos := 1\<rparr>))
   \<and> length ''A'' \<noteq> length [CHR 0xC3, CHR 0xA9]"
  by (simp add: GenerateSecretKey_def runes_of_def DecodeRune_def cont_def GenerateRandomNumber_eq
      threeSymbols_def defaultVigenere_def countReader_def ConvertToString_def
      GenerateDefaultAlphabets_eq)

end
